theory Spec2Isabelle
  imports Complex_Main "HOL-Library.Log_Nat"
begin

section \<open>Python values and primitives used by the notebook\<close>

text \<open>
  The notebook \<^verbatim>\<open>Sentiment_RNN.ipynb\<close> is a straight-line script. Its
  preprocessing cells are embedded here one definition per statement. Python
  integers are \<open>int\<close>, strings are \<open>string\<close> (ASCII text is assumed, one
  \<open>char\<close> per character), lists and numpy arrays are HOL lists (a matrix is a
  list of rows), and every \<^verbatim>\<open>raise\<close> is the \<open>Inl\<close> branch of a sum.
\<close>

datatype py_error = KeyError string | ZeroDivisionError | ValueError | IndexError

definition newline :: char where
  "newline = CHR 0x0A"

text \<open>
  \<^verbatim>\<open>string.punctuation\<close>: the 32 ASCII punctuation characters, in ascending
  code order (codes 33-47, 58-64, 91-96 and 123-126).
\<close>

definition punctuation :: string where
  "punctuation = map char_of ([33..<48] @ [58..<65] @ [91..<97] @ [123..<127] :: nat list)"

text \<open>
  The ASCII characters for which \<^verbatim>\<open>str.isspace\<close> holds: tab, line feed,
  vertical tab, form feed, carriage return, the four separators 28-31 and the space.
\<close>

definition isspace :: "char \<Rightarrow> bool" where
  "isspace c = (let n = (of_char c :: nat) in (9 \<le> n \<and> n \<le> 13) \<or> (28 \<le> n \<and> n \<le> 32))"

text \<open>\<^verbatim>\<open>s.split(sep)\<close> for a one-character separator: never returns the empty list.\<close>

fun split_on :: "char \<Rightarrow> string \<Rightarrow> string list" where
  "split_on sep [] = [[]]"
| "split_on sep (c # cs) =
     (if c = sep then [] # split_on sep cs
      else (case split_on sep cs of
              [] \<Rightarrow> [[c]]
            | r # rs \<Rightarrow> (c # r) # rs))"

text \<open>\<^verbatim>\<open>s.split()\<close>: maximal runs of non-whitespace characters.\<close>

function split_ws :: "string \<Rightarrow> string list" where
  "split_ws [] = []"
| "split_ws (c # cs) =
     (if isspace c then split_ws cs
      else (c # takeWhile (\<lambda>d. \<not> isspace d) cs)
             # split_ws (dropWhile (\<lambda>d. \<not> isspace d) cs))"
  by pat_completeness auto
termination
  by (relation "measure length") (auto simp: less_Suc_eq_le length_dropWhile_le)

text \<open>\<^verbatim>\<open>sep.join(parts)\<close>.\<close>

fun join :: "string \<Rightarrow> string list \<Rightarrow> string" where
  "join sep [] = []"
| "join sep [x] = x"
| "join sep (x # y # ys) = x @ sep @ join sep (y # ys)"

text \<open>
  Slicing \<^verbatim>\<open>xs[lo:hi]\<close> with Python's index rules: a negative index counts
  from the end, and both ends are clamped to the list.
\<close>

definition clamp_index :: "nat \<Rightarrow> int \<Rightarrow> nat" where
  "clamp_index n i = (if i < 0 then nat (max 0 (int n + i)) else min n (nat i))"

definition py_slice :: "'a list \<Rightarrow> int \<Rightarrow> int \<Rightarrow> 'a list" where
  "py_slice xs lo hi =
     (let l = clamp_index (length xs) lo; h = clamp_index (length xs) hi
      in take (h - l) (drop l xs))"

definition slice_to :: "'a list \<Rightarrow> int \<Rightarrow> 'a list" where
  "slice_to xs hi = take (clamp_index (length xs) hi) xs"

definition slice_from :: "'a list \<Rightarrow> int \<Rightarrow> 'a list" where
  "slice_from xs lo = drop (clamp_index (length xs) lo) xs"

section \<open>Text normalisation\<close>

text \<open>
  \<^verbatim>\<open>
  all_text = ''.join([c for c in reviews if c not in punctuation])
  reviews = all_text.split('\n')
  all_text = ' '.join(reviews)
  words = all_text.split()
  \<close>
\<close>

definition strip_punctuation :: "string \<Rightarrow> string" where
  "strip_punctuation reviews = filter (\<lambda>c. c \<notin> set punctuation) reviews"

definition reviews_of :: "string \<Rightarrow> string list" where
  "reviews_of reviews = split_on newline (strip_punctuation reviews)"

definition words_of :: "string \<Rightarrow> string list" where
  "words_of reviews = split_ws (join '' '' (reviews_of reviews))"

section \<open>Vocabulary\<close>

text \<open>
  \<^verbatim>\<open>
  counts = Counter(words)
  vocab = sorted(counts, key=counts.get, reverse=True)
  vocab_to_int = {word: ii+1 for ii, word in enumerate(vocab)}
  \<close>
  A \<^verbatim>\<open>Counter\<close> is a dict, which iterates over its keys in the order of their
  first insertion: it is an association list here. \<^verbatim>\<open>sorted\<close> is stable, also
  with \<^verbatim>\<open>reverse=True\<close> (equal keys keep their order), so it is the stable
  insertion sort \<open>sort_key\<close> on the negated count.
\<close>

fun counter_add :: "'a \<Rightarrow> ('a \<times> nat) list \<Rightarrow> ('a \<times> nat) list" where
  "counter_add w [] = [(w, 1)]"
| "counter_add w ((k, c) # kcs) =
     (if k = w then (k, c + 1) # kcs else (k, c) # counter_add w kcs)"

definition Counter :: "'a list \<Rightarrow> ('a \<times> nat) list" where
  "Counter ws = fold counter_add ws []"

definition counts_get :: "('a \<times> nat) list \<Rightarrow> 'a \<Rightarrow> nat" where
  \<comment> \<open>\<^verbatim>\<open>counts.get\<close>, only ever applied to keys of \<open>counts\<close>\<close>
  "counts_get counts w = (case map_of counts w of Some c \<Rightarrow> c | None \<Rightarrow> 0)"

definition vocab_of :: "'a list \<Rightarrow> 'a list" where
  "vocab_of ws =
     (let counts = Counter ws
      in sort_key (\<lambda>w. - int (counts_get counts w)) (map fst counts))"

definition vocab_to_int_of :: "'a list \<Rightarrow> ('a \<rightharpoonup> int)" where
  "vocab_to_int_of vocab =
     fold (\<lambda>(ii, word) m. m(word \<mapsto> int ii + 1)) (enumerate 0 vocab) Map.empty"

definition vocab_to_int :: "'a list \<Rightarrow> ('a \<rightharpoonup> int)" where
  "vocab_to_int ws = vocab_to_int_of (vocab_of ws)"

section \<open>Encoding reviews and labels\<close>

text \<open>
  \<^verbatim>\<open>
  reviews_ints = []
  for each in reviews:
      reviews_ints.append([vocab_to_int[word] for word in each.split()])
  \<close>
  A subscript on a dict raises \<^verbatim>\<open>KeyError\<close> for a missing key; the comprehension
  runs left to right, so the first missing word is the one reported.
\<close>

fun lookup_words :: "(string \<rightharpoonup> int) \<Rightarrow> string list \<Rightarrow> py_error + int list" where
  "lookup_words vm [] = Inr []"
| "lookup_words vm (word # rest) =
     (case vm word of
        None \<Rightarrow> Inl (KeyError word)
      | Some i \<Rightarrow> (case lookup_words vm rest of
                    Inl e \<Rightarrow> Inl e
                  | Inr ids \<Rightarrow> Inr (i # ids)))"

definition encode_review :: "(string \<rightharpoonup> int) \<Rightarrow> string \<Rightarrow> py_error + int list" where
  "encode_review vm each = lookup_words vm (split_ws each)"

fun encode_reviews :: "(string \<rightharpoonup> int) \<Rightarrow> string list \<Rightarrow> py_error + int list list" where
  "encode_reviews vm [] = Inr []"
| "encode_reviews vm (each # rest) =
     (case encode_review vm each of
        Inl e \<Rightarrow> Inl e
      | Inr ids \<Rightarrow> (case encode_reviews vm rest of
                      Inl e \<Rightarrow> Inl e
                    | Inr reviews_ints \<Rightarrow> Inr (ids # reviews_ints)))"

text \<open>
  \<^verbatim>\<open>
  labels = labels.split('\n')
  labels = np.array([1 if each == 'positive' else 0 for each in labels])
  \<close>
\<close>

definition encode_label :: "string \<Rightarrow> int" where
  "encode_label each = (if each = ''positive'' then 1 else 0)"

definition encode_labels :: "string \<Rightarrow> int list" where
  "encode_labels labels = map encode_label (split_on newline labels)"

text \<open>
  \<^verbatim>\<open>
  # Filter out that review with 0 length
  reviews_ints = [each for each in reviews_ints if len(each)!=0]
  \<close>
\<close>

definition filter_empty :: "int list list \<Rightarrow> int list list" where
  "filter_empty reviews_ints = filter (\<lambda>each. length each \<noteq> 0) reviews_ints"

text \<open>
  The cells up to the filter, run on the contents of the two files: the filtered
  encoded reviews and the label array, as the later cells see them.
\<close>

definition preprocess :: "string \<Rightarrow> string \<Rightarrow> py_error + (int list list \<times> int list)" where
  "preprocess reviews labels =
     (case encode_reviews (vocab_to_int (words_of reviews)) (reviews_of reviews) of
        Inl e \<Rightarrow> Inl e
      | Inr reviews_ints \<Rightarrow> Inr (filter_empty reviews_ints, encode_labels labels))"

section \<open>Framing to a fixed length\<close>

text \<open>
  \<^verbatim>\<open>
  seq_len = 200
  features = np.zeros((len(reviews_ints), seq_len), dtype=int)

  for i, each in enumerate(reviews_ints):
      if len(each) >= 200:
          features[i] = each[:200]
      else:
          diff = 200 - len(each)
          features[i, diff:] = each
  \<close>
  The matrix is a list of rows. An assignment to a row or to the tail of a row
  broadcasts the right-hand side as numpy does: a value of the length of the
  target is stored as it is, a value of length one is repeated, and any other length
  raises \<^verbatim>\<open>ValueError\<close>. The entries are mathematical integers (the ids stored
  are at most the vocabulary size, far from the bounds of the array's 64-bit type).
\<close>

definition seq_len :: nat where
  "seq_len = 200"

definition np_zeros :: "nat \<Rightarrow> nat \<Rightarrow> int list list" where
  "np_zeros n m = replicate n (replicate m 0)"

definition broadcast_to :: "nat \<Rightarrow> int list \<Rightarrow> py_error + int list" where
  "broadcast_to n vals =
     (if length vals = n then Inr vals
      else if length vals = 1 then Inr (replicate n (hd vals))
      else Inl ValueError)"

definition assign_row :: "int list list \<Rightarrow> nat \<Rightarrow> int list \<Rightarrow> py_error + int list list" where
  \<comment> \<open>\<^verbatim>\<open>features[i] = vals\<close>\<close>
  "assign_row features i vals =
     (if i < length features
      then (case broadcast_to (length (features ! i)) vals of
              Inl e \<Rightarrow> Inl e
            | Inr row \<Rightarrow> Inr (features[i := row]))
      else Inl IndexError)"

definition assign_row_from ::
  "int list list \<Rightarrow> nat \<Rightarrow> int \<Rightarrow> int list \<Rightarrow> py_error + int list list" where
  \<comment> \<open>\<^verbatim>\<open>features[i, diff:] = vals\<close>\<close>
  "assign_row_from features i diff vals =
     (if i < length features
      then (let row = features ! i; d = clamp_index (length row) diff
            in case broadcast_to (length row - d) vals of
                 Inl e \<Rightarrow> Inl e
               | Inr tail \<Rightarrow> Inr (features[i := take d row @ tail]))
      else Inl IndexError)"

fun frame_rows :: "int list list \<Rightarrow> (nat \<times> int list) list \<Rightarrow> py_error + int list list" where
  "frame_rows features [] = Inr features"
| "frame_rows features ((i, each) # rest) =
     (case (if length each \<ge> 200
            then assign_row features i (slice_to each 200)
            else (let diff = 200 - int (length each)
                  in assign_row_from features i diff each)) of
        Inl e \<Rightarrow> Inl e
      | Inr features' \<Rightarrow> frame_rows features' rest)"

definition features_of :: "int list list \<Rightarrow> py_error + int list list" where
  "features_of reviews_ints =
     frame_rows (np_zeros (length reviews_ints) seq_len) (enumerate 0 reviews_ints)"

section \<open>Double-precision arithmetic\<close>

text \<open>
  The split multiplies a length by the float literals \<^verbatim>\<open>0.8\<close> and \<^verbatim>\<open>0.5\<close>.
  A finite double is a rational number, so the operations are modelled on \<open>rat\<close>:
  every literal, conversion and product is rounded to the nearest number with a
  53-bit significand, ties to the even significand. Overflow and subnormal numbers are
  left out (the nonzero values here lie between 0.5 and the largest list length).

  \<open>binade q\<close> is the exponent \<open>e\<close> with \<open>2 powi e \<le> q < 2 powi (e + 1)\<close> of a
  positive \<open>q\<close>, found from the bit lengths of numerator and denominator.
\<close>

definition round_half_even :: "rat \<Rightarrow> int" where
  "round_half_even q =
     (let f = \<lfloor>q\<rfloor>; r = q - of_int f
      in if r < 1 / 2 then f
         else if 1 / 2 < r then f + 1
         else if even f then f else f + 1)"

definition binade :: "rat \<Rightarrow> int" where
  "binade q =
     (let (a, b) = quotient_of q; k = bitlen a - bitlen b
      in if 2 powi k \<le> q then k else k - 1)"

definition round_double :: "rat \<Rightarrow> rat" where
  "round_double q =
     (if q = 0 then 0
      else (let m = \<bar>q\<bar>; u = 2 powi (binade m - 52)
            in sgn q * of_int (round_half_even (m / u)) * u))"

definition float_of_nat :: "nat \<Rightarrow> rat" where
  \<comment> \<open>the conversion of an \<^verbatim>\<open>int\<close> operand of a mixed product\<close>
  "float_of_nat n = round_double (of_nat n)"

definition float_mul :: "rat \<Rightarrow> rat \<Rightarrow> rat" where
  "float_mul a b = round_double (a * b)"

definition py_int :: "rat \<Rightarrow> int" where
  \<comment> \<open>\<^verbatim>\<open>int(x)\<close> of a float: truncation towards zero\<close>
  "py_int q = (if q < 0 then - \<lfloor>- q\<rfloor> else \<lfloor>q\<rfloor>)"

section \<open>Training, validation and test split\<close>

text \<open>
  \<^verbatim>\<open>
  split_idx = int(len(features)*0.8)
  train_x, val_x = features[:split_idx], features[split_idx:]
  train_y, val_y = labels[:split_idx], labels[split_idx:]

  test_idx = int(len(val_x)*0.5)
  val_x, test_x = val_x[:test_idx], val_x[test_idx:]
  val_y, test_y = val_y[:test_idx], val_y[test_idx:]
  \<close>
  The source assigns \<^verbatim>\<open>val_x\<close> and \<^verbatim>\<open>val_y\<close> twice; their first values are
  \<open>rest_x\<close> and \<open>rest_y\<close> here.
\<close>

record ('a, 'b) splits =
  train_x :: "'a list"
  train_y :: "'b list"
  val_x :: "'a list"
  val_y :: "'b list"
  test_x :: "'a list"
  test_y :: "'b list"

definition split_idx_of :: "'a list \<Rightarrow> int" where
  "split_idx_of features =
     py_int (float_mul (float_of_nat (length features)) (round_double 0.8))"

definition test_idx_of :: "'a list \<Rightarrow> int" where
  "test_idx_of rest_x =
     py_int (float_mul (float_of_nat (length rest_x)) (round_double 0.5))"

definition split_data :: "'a list \<Rightarrow> 'b list \<Rightarrow> ('a, 'b) splits" where
  "split_data features labels =
     (let split_idx = split_idx_of features;
          rest_x = slice_from features split_idx;
          rest_y = slice_from labels split_idx;
          test_idx = test_idx_of rest_x
      in \<lparr> train_x = slice_to features split_idx,
           train_y = slice_to labels split_idx,
           val_x = slice_to rest_x test_idx,
           val_y = slice_to rest_y test_idx,
           test_x = slice_from rest_x test_idx,
           test_y = slice_from rest_y test_idx \<rparr>)"

section \<open>Batching\<close>

text \<open>
  \<^verbatim>\<open>
  def get_batches(x, y, batch_size=100):
      n_batches = len(x)//batch_size
      x, y = x[:n_batches*batch_size], y[:n_batches*batch_size]
      for ii in range(0, len(x), batch_size):
          yield x[ii:ii+batch_size], y[ii:ii+batch_size]
  \<close>
  \<^verbatim>\<open>get_batches\<close> is a generator function: the call only creates a generator
  object and runs none of the body. Each \<^verbatim>\<open>next\<close> resumes the body until the
  following \<^verbatim>\<open>yield\<close>, the end of the body (\<open>Inr None\<close>, Python's
  \<^verbatim>\<open>StopIteration\<close>) or an exception; after either of the last two the
  generator is closed. A suspended generator holds the truncated \<open>x\<close> and \<open>y\<close>,
  the step and the next value of \<open>ii\<close>.
\<close>

datatype ('a, 'b) generator =
    Created "'a list" "'b list" int
  | Suspended "'a list" "'b list" int int
  | Closed

definition get_batches :: "'a list \<Rightarrow> 'b list \<Rightarrow> int \<Rightarrow> ('a, 'b) generator" where
  "get_batches x y batch_size = Created x y batch_size"

definition in_range :: "int \<Rightarrow> int \<Rightarrow> int \<Rightarrow> bool" where
  \<comment> \<open>whether \<^verbatim>\<open>range(start, stop, step)\<close>, having reached \<open>ii\<close>, still produces it\<close>
  "in_range ii stop step = (if step > 0 then ii < stop else ii > stop)"

definition loop_step ::
  "'a list \<Rightarrow> 'b list \<Rightarrow> int \<Rightarrow> int
   \<Rightarrow> (py_error + ('a list \<times> 'b list) option) \<times> ('a, 'b) generator" where
  "loop_step x y batch_size ii =
     (if batch_size = 0 then (Inl ValueError, Closed) \<comment> \<open>\<^verbatim>\<open>range\<close> refuses a step of 0\<close>
      else if in_range ii (int (length x)) batch_size
      then (Inr (Some (py_slice x ii (ii + batch_size), py_slice y ii (ii + batch_size))),
            Suspended x y batch_size (ii + batch_size))
      else (Inr None, Closed))"

fun gen_next ::
  "('a, 'b) generator \<Rightarrow> (py_error + ('a list \<times> 'b list) option) \<times> ('a, 'b) generator" where
  "gen_next (Created x y batch_size) =
     (if batch_size = 0 then (Inl ZeroDivisionError, Closed)
      else (let n_batches = int (length x) div batch_size;
                x' = slice_to x (n_batches * batch_size);
                y' = slice_to y (n_batches * batch_size)
            in loop_step x' y' batch_size 0))"
| "gen_next (Suspended x y batch_size ii) = loop_step x y batch_size ii"
| "gen_next Closed = (Inr None, Closed)"

text \<open>
  What a \<^verbatim>\<open>for\<close> loop over the generator receives: the batches in order, or the
  exception that ends the iteration.
\<close>

fun remaining :: "('a, 'b) generator \<Rightarrow> nat" where
  "remaining (Created x y batch_size) = length x + 1"
| "remaining (Suspended x y batch_size ii) =
     (if batch_size > 0 then nat (int (length x) - ii)
      else if batch_size < 0 then nat (ii - int (length x))
      else 0)"
| "remaining Closed = 0"

function drain :: "('a, 'b) generator \<Rightarrow> py_error + ('a list \<times> 'b list) list" where
  "drain g =
     (case gen_next g of
        (Inl e, _) \<Rightarrow> Inl e
      | (Inr None, _) \<Rightarrow> Inr []
      | (Inr (Some batch), g') \<Rightarrow>
          (case drain g' of
             Inl e \<Rightarrow> Inl e
           | Inr batches \<Rightarrow> Inr (batch # batches)))"
  by pat_completeness auto
termination
proof (relation "measure remaining")
  show "wf (measure remaining)" by simp
next
  fix g :: "('a, 'b) generator" and r g' ob batch
  assume "(r, g') = gen_next g" "r = Inr ob" "ob = Some batch"
  then have step: "gen_next g = (Inr (Some batch), g')" by simp
  show "(g', g) \<in> measure remaining"
  proof (cases g)
    case (Created x y b)
    with step show ?thesis
      by (auto simp: loop_step_def in_range_def slice_to_def clamp_index_def Let_def
          split: if_splits)
  next
    case (Suspended x y b ii)
    with step show ?thesis
      by (auto simp: loop_step_def in_range_def split: if_splits)
  next
    case Closed
    with step show ?thesis by simp
  qed
qed

declare drain.simps [simp del]

section \<open>Reference values for the loops\<close>

text \<open>The \<open>j\<close>-th block of \<open>b\<close> consecutive rows of \<open>x\<close>, with the labels at the same indices.\<close>

definition batch_at :: "'a list \<Rightarrow> 'b list \<Rightarrow> nat \<Rightarrow> nat \<Rightarrow> 'a list \<times> 'b list" where
  "batch_at x y b j = (take b (drop (j * b) x), take b (drop (j * b) y))"

text \<open>The row that the framing loop is to store for one encoded review.\<close>

definition framed_row :: "int list \<Rightarrow> int list" where
  "framed_row each =
     (if length each \<ge> 200 then take 200 each
      else replicate (200 - length each) 0 @ each)"

section \<open>Properties of the label encoding\<close>

lemma split_on_nonempty: "split_on sep s \<noteq> []"
  by (induction s) (auto split: list.splits)

lemma split_on_sep_tail:
  "length (split_on sep (s @ sep # t)) = length (split_on sep s) + length (split_on sep t)
   \<and> last (split_on sep (s @ sep # t)) = last (split_on sep t)"
  by (induction s) (auto split: list.splits simp: split_on_nonempty)

lemma last_split_on_trailing: "last (split_on sep (s @ [sep])) = []"
  using split_on_sep_tail [of sep s "[]"] by simp

text \<open>
  Claim C9. The label encoder sends the string \<open>positive\<close> to 1 and every other
  string to 0, among them \<open>negative\<close> and the empty string that a trailing
  newline of the labels file leaves as last line; it is total (no error branch), and
  every entry of the label array is 0 or 1.
\<close>

theorem labels_binary:
  "encode_label ''positive'' = 1
   \<and> (\<forall>s. s \<noteq> ''positive'' \<longrightarrow> encode_label s = 0)
   \<and> encode_label ''negative'' = 0
   \<and> encode_label [] = 0
   \<and> last (encode_labels (labels @ [newline])) = 0
   \<and> length (encode_labels labels) = length (split_on newline labels)
   \<and> set (encode_labels labels) \<subseteq> {0, 1}
   \<and> (\<forall>i < length (encode_labels labels).
        encode_labels labels ! i = (if split_on newline labels ! i = ''positive'' then 1 else 0))"
  by (auto simp: encode_label_def encode_labels_def last_map split_on_nonempty
      last_split_on_trailing)

theorem labels_binary_witness:
  "encode_labels (''positive'' @ [newline] @ ''negative'' @ [newline] @ ''Positive'' @ [newline])
     = [1, 0, 0, 0]
   \<and> encode_label ''positive '' = 0"
  using labels_binary [of "''positive'' @ [newline] @ ''negative'' @ [newline] @ ''Positive''"]
  by (simp add: encode_label_def encode_labels_def newline_def)

section \<open>Properties of the review encoder\<close>

lemma lookup_words_missing:
  "\<exists>w \<in> set ws. vm w = None \<Longrightarrow>
   \<exists>w \<in> set ws. vm w = None \<and> lookup_words vm ws = Inl (KeyError w)"
proof (induction ws)
  case Nil
  then show ?case by simp
next
  case (Cons a ws)
  show ?case
  proof (cases "vm a")
    case None
    then show ?thesis by auto
  next
    case (Some i)
    with Cons.prems have "\<exists>w \<in> set ws. vm w = None" by auto
    from Cons.IH [OF this] Some show ?thesis by auto
  qed
qed

lemma lookup_words_first_missing:
  "\<forall>w \<in> set pre. vm w \<noteq> None \<Longrightarrow> vm w = None \<Longrightarrow>
   lookup_words vm (pre @ w # post) = Inl (KeyError w)"
  by (induction pre) auto

lemma lookup_words_Inr:
  "lookup_words vm ws = Inr ids \<Longrightarrow> map vm ws = map Some ids"
  by (induction ws arbitrary: ids) (auto split: option.splits sum.splits)

lemma lookup_words_Inl:
  "lookup_words vm ws = Inl e \<Longrightarrow> \<exists>w \<in> set ws. vm w = None \<and> e = KeyError w"
  by (induction ws) (auto split: option.splits sum.splits)

lemma encode_reviews_missing:
  "\<exists>each \<in> set reviews. \<exists>w \<in> set (split_ws each). vm w = None \<Longrightarrow>
   \<exists>w. vm w = None \<and> encode_reviews vm reviews = Inl (KeyError w)"
proof (induction reviews)
  case Nil
  then show ?case by simp
next
  case (Cons each rest)
  show ?case
  proof (cases "\<exists>w \<in> set (split_ws each). vm w = None")
    case True
    from lookup_words_missing [OF this] show ?thesis
      by (auto simp: encode_review_def)
  next
    case False
    with Cons.prems have "\<exists>each \<in> set rest. \<exists>w \<in> set (split_ws each). vm w = None"
      by auto
    from Cons.IH [OF this] obtain w
      where w: "vm w = None" "encode_reviews vm rest = Inl (KeyError w)"
      by blast
    show ?thesis
    proof (cases "encode_review vm each")
      case (Inl e)
      then show ?thesis using lookup_words_Inl [of vm "split_ws each" e] False
        by (auto simp: encode_review_def)
    next
      case (Inr ids)
      with w show ?thesis by auto
    qed
  qed
qed

text \<open>
  Claim C8. Encoding a review that has a word outside the vocabulary mapping fails
  with \<^verbatim>\<open>KeyError\<close> for such a word, and so does the loop over all reviews as soon
  as one review has such a word. No default id exists: whenever a review is encoded,
  every id of the result is the mapping's value at the word in that place.
\<close>

theorem encoder_fails_fast:
  "((\<exists>w \<in> set (split_ws each). vm w = None) \<longrightarrow>
      (\<exists>w \<in> set (split_ws each). vm w = None \<and> encode_review vm each = Inl (KeyError w)))
   \<and> (\<forall>ids. encode_review vm each = Inr ids \<longrightarrow> map vm (split_ws each) = map Some ids)
   \<and> ((\<exists>r \<in> set reviews. \<exists>w \<in> set (split_ws r). vm w = None) \<longrightarrow>
      (\<exists>w. vm w = None \<and> encode_reviews vm reviews = Inl (KeyError w)))"
  using lookup_words_missing [of "split_ws each" vm] lookup_words_Inr [of vm "split_ws each"]
    encode_reviews_missing [of reviews vm]
  unfolding encode_review_def by blast

theorem encoder_fails_fast_witness:
  "encode_review [''good'' \<mapsto> 1] ''good movie'' = Inl (KeyError ''movie'')
   \<and> encode_reviews [''good'' \<mapsto> 1] [''good'', ''good movie'', ''good''] = Inl (KeyError ''movie'')
   \<and> encode_review [''good'' \<mapsto> 1, ''movie'' \<mapsto> 2] ''good movie'' = Inr [1, 2]"
  using encoder_fails_fast [of "''good movie''" "[''good'' \<mapsto> 1]" "[''good'', ''good movie'', ''good'']"]
  by (simp add: encode_review_def isspace_def)

section \<open>Properties of the batch iterator\<close>

lemma py_slice_nonneg:
  assumes "0 \<le> lo" "0 \<le> c"
  shows "py_slice xs lo (lo + c) = take (nat c) (drop (nat lo) xs)"
proof (cases "nat lo < length xs")
  case True
  with assms have l: "clamp_index (length xs) lo = nat lo"
    by (simp add: clamp_index_def)
  from assms have h: "clamp_index (length xs) (lo + c) = min (length xs) (nat lo + nat c)"
    by (simp add: clamp_index_def nat_add_distrib)
  have "min n (l' + c') - l' = min (n - l') c'" for n l' c' :: nat
    by arith
  then have "min (length xs) (nat lo + nat c) - nat lo = min (length (drop (nat lo) xs)) (nat c)"
    by simp
  then show ?thesis
    by (simp only: py_slice_def l h Let_def take_all_iff min.cobounded1 take_take [symmetric]
        min.commute [of "nat c"]) simp
next
  case False
  with assms have "clamp_index (length xs) lo = length xs"
    by (simp add: clamp_index_def)
  with False show ?thesis
    by (simp add: py_slice_def Let_def)
qed

lemma slice_to_nonneg: "0 \<le> hi \<Longrightarrow> slice_to xs hi = take (nat hi) xs"
  by (simp add: slice_to_def clamp_index_def min_def)

lemma slice_from_nonneg: "0 \<le> lo \<Longrightarrow> slice_from xs lo = drop (nat lo) xs"
  by (simp add: slice_from_def clamp_index_def min_def)

lemma drain_error: "gen_next g = (Inl e, g') \<Longrightarrow> drain g = Inl e"
  by (subst drain.simps) simp

lemma drain_stop: "gen_next g = (Inr None, g') \<Longrightarrow> drain g = Inr []"
  by (subst drain.simps) simp

lemma drain_yield:
  "gen_next g = (Inr (Some batch), g') \<Longrightarrow>
   drain g = (case drain g' of Inl e \<Rightarrow> Inl e | Inr batches \<Rightarrow> Inr (batch # batches))"
  by (subst drain.simps) simp

lemma drain_suspended:
  assumes "0 < b" "length x = m * nat b" "k \<le> m"
  shows "drain (Suspended x y b (int k * b)) = Inr (map (batch_at x y (nat b)) [k..<m])"
  using assms(3)
proof (induction "m - k" arbitrary: k)
  case 0
  then have "k = m" by simp
  with assms have "\<not> in_range (int k * b) (int (length x)) b"
    by (simp add: in_range_def nat_mult_distrib)
  with assms(1) have "gen_next (Suspended x y b (int k * b)) = (Inr None, Closed)"
    by (simp add: loop_step_def)
  from drain_stop [OF this] \<open>k = m\<close> show ?case by simp
next
  case (Suc d)
  then have lt: "k < m" by simp
  have "int k * b < int m * b" using lt assms(1) by simp
  also have "int m * b = int (length x)" using assms by (simp add: nat_mult_distrib)
  finally have inr: "in_range (int k * b) (int (length x)) b"
    using assms(1) by (simp add: in_range_def)
  have nat_kb: "nat (int k * b) = k * nat b"
    using assms(1) by (simp add: nat_mult_distrib)
  have sl: "py_slice x (int k * b) (int k * b + b) = take (nat b) (drop (k * nat b) x)"
    "py_slice y (int k * b) (int k * b + b) = take (nat b) (drop (k * nat b) y)"
    using assms(1) by (simp_all add: py_slice_nonneg nat_kb)
  have eq: "int k * b + b = int (Suc k) * b"
    by (simp add: distrib_right)
  have "gen_next (Suspended x y b (int k * b))
      = (Inr (Some (batch_at x y (nat b) k)), Suspended x y b (int k * b + b))"
    using inr assms(1) by (simp add: loop_step_def sl batch_at_def)
  then have nxt: "gen_next (Suspended x y b (int k * b))
      = (Inr (Some (batch_at x y (nat b) k)), Suspended x y b (int (Suc k) * b))"
    by (simp only: eq)
  have "drain (Suspended x y b (int (Suc k) * b)) = Inr (map (batch_at x y (nat b)) [Suc k..<m])"
    using Suc lt by (intro Suc.hyps(1)) auto
  then show ?case
    using lt by (simp add: drain_yield [OF nxt] upt_conv_Cons)
qed

lemma drain_created:
  assumes "0 < b"
  shows "drain (get_batches x y b)
     = Inr (map (batch_at (take (length x div nat b * nat b) x)
                          (take (length x div nat b * nat b) y) (nat b))
                [0..<length x div nat b])"
proof -
  let ?m = "length x div nat b"
  let ?x = "take (?m * nat b) x" and ?y = "take (?m * nat b) y"
  have nb: "int (length x) div b * b = int (?m * nat b)" "0 \<le> int (length x) div b * b"
    using assms by (simp_all add: zdiv_int pos_imp_zdiv_nonneg_iff)
  have hi: "nat (int (length x) div b * b) = ?m * nat b"
    using nb(1) by (simp only: nat_int)
  have sl: "slice_to x (int (length x) div b * b) = ?x" "slice_to y (int (length x) div b * b) = ?y"
    by (simp_all only: slice_to_nonneg [OF nb(2)] hi)
  have "gen_next (get_batches x y b) = gen_next (Suspended ?x ?y b 0)"
    using assms by (simp add: get_batches_def Let_def sl)
  then have "drain (get_batches x y b) = drain (Suspended ?x ?y b 0)"
    by (subst drain.simps, subst (2) drain.simps) simp
  then have "drain (get_batches x y b) = drain (Suspended ?x ?y b (int 0 * b))"
    by simp
  also have "\<dots> = Inr (map (batch_at ?x ?y (nat b)) [0..<?m])"
  proof (rule drain_suspended [OF assms])
    have "?m * nat b \<le> length x" by simp
    then show "length ?x = ?m * nat b" by simp
  qed simp
  finally show ?thesis .
qed


lemma batch_at_take:
  assumes "j < m"
  shows "batch_at (take (m * b) x) (take (m * b) y) b j = batch_at x y b j"
proof -
  have "Suc j * b \<le> m * b" using assms by (intro mult_le_mono1) simp
  then have "b \<le> m * b - j * b" by simp
  then show ?thesis
    by (simp add: batch_at_def drop_take min_def)
qed

lemma drain_get_batches:
  assumes "0 < b"
  shows "drain (get_batches x y b) = Inr (map (batch_at x y (nat b)) [0..<length x div nat b])"
  by (simp add: drain_created [OF assms] batch_at_take)

lemma concat_chunks: "concat (map (\<lambda>j. take b (drop (j * b) xs)) [0..<m]) = take (m * b) xs"
proof (induction m)
  case 0
  show ?case by simp
next
  case (Suc m)
  have "take (Suc m * b) xs = take (m * b + b) xs" by (simp add: add.commute)
  also have "\<dots> = take (m * b) xs @ take b (drop (m * b) xs)" by (rule take_add)
  finally show ?case using Suc by simp
qed

lemma length_chunk:
  assumes "j < m" "m * b \<le> length xs"
  shows "length (take b (drop (j * b) xs)) = b"
proof -
  have "Suc j * b \<le> m * b" using assms(1) by (intro mult_le_mono1) simp
  with assms(2) have "j * b + b \<le> length xs" by simp
  then show ?thesis by simp
qed

text \<open>
  Claim C3. For a feature matrix \<open>x\<close> of \<open>n\<close> rows, a label vector \<open>y\<close> with a
  label for every row (of the same length, or longer) and a batch size \<open>b > 0\<close>, iterating over \<open>get_batches x y b\<close> ends
  without an exception after exactly \<open>n div b\<close> batches; every batch has exactly
  \<open>b\<close> rows and \<open>b\<close> labels; the rows yielded are, in order, the first
  \<open>(n div b) * b\<close> rows of \<open>x\<close>. With 7 rows and \<open>b = 3\<close> there are two batches and
  the rows yielded are all but the last one.
\<close>

theorem batches_full:
  assumes "0 < b" "length x \<le> length y"
  shows "\<exists>batches. drain (get_batches x y b) = Inr batches
     \<and> int (length batches) = int (length x) div b
     \<and> (\<forall>(bx, bl) \<in> set batches. int (length bx) = b \<and> int (length bl) = b)
     \<and> int (length (concat (map fst batches))) = int (length x) div b * b
     \<and> concat (map fst batches) = slice_to x (int (length x) div b * b)
     \<and> concat (map snd batches) = slice_to y (int (length x) div b * b)
     \<and> (length x = 7 \<and> b = 3 \<longrightarrow> length batches = 2 \<and> concat (map fst batches) = butlast x)"
proof -
  let ?m = "length x div nat b"
  let ?bs = "map (batch_at x y (nat b)) [0..<?m]"
  have le: "?m * nat b \<le> length x" by simp
  have nb: "int (length x) div b * b = int (?m * nat b)" "0 \<le> int (length x) div b * b"
    using assms(1) by (simp_all add: zdiv_int pos_imp_zdiv_nonneg_iff)
  have hi: "nat (int (length x) div b * b) = ?m * nat b"
    using nb(1) by (simp only: nat_int)
  have d: "drain (get_batches x y b) = Inr ?bs"
    by (rule drain_get_batches [OF assms(1)])
  have n: "int (length ?bs) = int (length x) div b"
    using assms(1) by (simp add: zdiv_int)
  have each: "\<forall>(bx, bl) \<in> set ?bs. int (length bx) = b \<and> int (length bl) = b"
  proof -
    have "length (take (nat b) (drop (j * nat b) x)) = nat b
        \<and> length (take (nat b) (drop (j * nat b) y)) = nat b" if "j < ?m" for j
      using length_chunk [OF that le] length_chunk [OF that le_trans [OF le assms(2)]] by simp
    then show ?thesis using assms(1) by (auto simp: batch_at_def)
  qed
  have fx: "concat (map fst ?bs) = take (?m * nat b) x"
    using concat_chunks [of "nat b" x ?m] by (simp add: batch_at_def comp_def)
  have fy: "concat (map snd ?bs) = take (?m * nat b) y"
    using concat_chunks [of "nat b" y ?m] by (simp add: batch_at_def comp_def)
  have sx: "concat (map fst ?bs) = slice_to x (int (length x) div b * b)"
    by (simp only: fx slice_to_nonneg [OF nb(2)] hi)
  have sy: "concat (map snd ?bs) = slice_to y (int (length x) div b * b)"
    by (simp only: fy slice_to_nonneg [OF nb(2)] hi)
  have total: "int (length (concat (map fst ?bs))) = int (length x) div b * b"
    using le by (simp only: fx nb(1) length_take min_absorb2)
  have seven: "length x = 7 \<and> b = 3 \<longrightarrow> length ?bs = 2 \<and> concat (map fst ?bs) = butlast x"
  proof
    assume a: "length x = 7 \<and> b = 3"
    then have "?m = 2" by simp
    then have "concat (map fst ?bs) = take 6 x" using fx a by simp
    moreover have "butlast x = take 6 x" using a by (simp add: butlast_conv_take)
    ultimately show "length ?bs = 2 \<and> concat (map fst ?bs) = butlast x"
      using \<open>?m = 2\<close> by simp
  qed
  from d n each total sx sy seven show ?thesis by blast
qed

theorem batches_full_witness:
  "\<exists>batches. drain (get_batches [1, 2, 3, 4, 5, 6, 7 :: nat] [1, 0, 1, 0, 1, 0, 1 :: int] 3) = Inr batches
     \<and> length batches = 2
     \<and> (\<forall>(bx, bl) \<in> set batches. length bx = 3 \<and> length bl = 3)
     \<and> concat (map fst batches) = [1, 2, 3, 4, 5, 6]"
  using batches_full [where b = 3 and x = "[1, 2, 3, 4, 5, 6, 7 :: nat]"
      and y = "[1, 0, 1, 0, 1, 0, 1 :: int]"]
  by (auto simp: slice_to_def clamp_index_def)

lemma gen_next_too_few:
  assumes "0 < length x" "int (length x) < batch_size"
  shows "gen_next (get_batches x y batch_size) = (Inr None, Closed)"
proof -
  have "int (length x) div batch_size = 0"
    using assms by (simp add: div_pos_pos_trivial)
  then show ?thesis
    using assms by (simp add: get_batches_def slice_to_def clamp_index_def loop_step_def in_range_def)
qed

lemma gen_next_negative:
  assumes "batch_size < 0"
  shows "gen_next (get_batches x y batch_size) = (Inr None, Closed)"
  using assms by (simp add: get_batches_def Let_def loop_step_def in_range_def)

text \<open>
  Claim C10. With \<open>0 < n < batch_size\<close> rows the first \<^verbatim>\<open>next\<close> already ends
  the iteration: no batch and no exception. With \<open>batch_size = 0\<close> the first
  \<^verbatim>\<open>next\<close> raises \<^verbatim>\<open>ZeroDivisionError\<close>, from \<^verbatim>\<open>len(x)//batch_size\<close>.
\<close>

theorem batches_short_or_zero:
  "(0 < length x \<and> int (length x) < batch_size \<longrightarrow>
      gen_next (get_batches x y batch_size) = (Inr None, Closed)
      \<and> drain (get_batches x y batch_size) = Inr [])
   \<and> gen_next (get_batches x y 0) = (Inl ZeroDivisionError, Closed)
   \<and> drain (get_batches x y 0) = Inl ZeroDivisionError"
proof -
  have z: "gen_next (get_batches x y 0) = (Inl ZeroDivisionError, Closed)"
    by (simp add: get_batches_def)
  show ?thesis
    using gen_next_too_few [of x batch_size y] z
    by (auto dest: drain_stop drain_error)
qed

theorem batches_short_or_zero_witness:
  "drain (get_batches [10, 20 :: int] [1, 0 :: int] 3) = Inr []
   \<and> drain (get_batches [10, 20 :: int] [1, 0 :: int] 0) = Inl ZeroDivisionError"
  using batches_short_or_zero [of "[10, 20 :: int]" 3 "[1, 0 :: int]"]
    batches_short_or_zero [of "[10, 20 :: int]" 0 "[1, 0 :: int]"]
  by simp

text \<open>
  Claim C7 says that a batch size \<open>\<le> 0\<close> is rejected when the pipeline is set up.
  The notebook has no such check. Creating the generator with batch size 0 succeeds,
  and the exception comes from the first \<^verbatim>\<open>next\<close>; with batch size \<open>-1\<close> nothing is
  ever raised: the iteration is empty.
\<close>

theorem no_eager_validation_counterexample:
  "get_batches [10, 20, 30 :: int] [1, 0, 1 :: int] 0 = Created [10, 20, 30] [1, 0, 1] 0
   \<and> gen_next (Created [10, 20, 30 :: int] [1, 0, 1 :: int] 0) = (Inl ZeroDivisionError, Closed)
   \<and> drain (get_batches [10, 20, 30 :: int] [1, 0, 1 :: int] (- 1)) = Inr []"
  using drain_stop [OF gen_next_negative [of "- 1" "[10, 20, 30 :: int]" "[1, 0, 1 :: int]"]]
  by (simp add: get_batches_def)

text \<open>
  Claim C7, as the code has it. Calling \<^verbatim>\<open>get_batches\<close> never fails, whatever the
  batch size; batch size 0 fails at the first \<^verbatim>\<open>next\<close> with
  \<^verbatim>\<open>ZeroDivisionError\<close>; a negative batch size is never rejected and gives an empty
  iteration. The target length is the constant 200 and is not checked anywhere.
\<close>

theorem no_eager_validation:
  "get_batches x y batch_size = Created x y batch_size
   \<and> gen_next (get_batches x y 0) = (Inl ZeroDivisionError, Closed)
   \<and> (batch_size < 0 \<longrightarrow>
        gen_next (get_batches x y batch_size) = (Inr None, Closed)
        \<and> drain (get_batches x y batch_size) = Inr [])
   \<and> seq_len = 200"
proof -
  have zero: "gen_next (get_batches x y 0) = (Inl ZeroDivisionError, Closed)"
    by (simp add: get_batches_def)
  have neg: "drain (get_batches x y batch_size) = Inr []" if "batch_size < 0"
    by (rule drain_stop [OF gen_next_negative [OF that]])
  show ?thesis
    using zero neg gen_next_negative [of batch_size x y]
    by (simp add: get_batches_def seq_len_def)
qed

theorem no_eager_validation_witness:
  "get_batches [10, 20, 30 :: int] [1, 0, 1 :: int] (- 2) = Created [10, 20, 30] [1, 0, 1] (- 2)
   \<and> gen_next (get_batches [10, 20, 30 :: int] [1, 0, 1 :: int] (- 2)) = (Inr None, Closed)
   \<and> drain (get_batches [10, 20, 30 :: int] [1, 0, 1 :: int] (- 2)) = Inr []"
proof -
  have neg: "(- 2 :: int) < 0" by simp
  from no_eager_validation [of "[10, 20, 30 :: int]" "[1, 0, 1 :: int]" "- 2"] neg
  show ?thesis by blast
qed

section \<open>Properties of the framing loop\<close>

lemma length_framed_row: "length (framed_row each) = 200"
  by (simp add: framed_row_def)

lemma assign_long:
  assumes "k < length F" "F ! k = replicate 200 0" "length each \<ge> 200"
  shows "assign_row F k (slice_to each 200) = Inr (F[k := framed_row each])"
  using assms by (simp add: assign_row_def slice_to_def clamp_index_def broadcast_to_def framed_row_def)

lemma assign_short:
  assumes "k < length F" "F ! k = replicate 200 0" "length each < 200"
  shows "assign_row_from F k (200 - int (length each)) each = Inr (F[k := framed_row each])"
proof -
  have d: "clamp_index 200 (200 - int (length each)) = 200 - length each"
    using assms(3) by (simp add: clamp_index_def nat_diff_distrib')
  show ?thesis
    using assms by (simp add: assign_row_from_def Let_def d broadcast_to_def framed_row_def)
qed

lemma frame_rows_enumerate:
  assumes "length F = k + length rs" "\<forall>j < length rs. F ! (k + j) = replicate 200 0"
  shows "frame_rows F (enumerate k rs) = Inr (take k F @ map framed_row rs)"
  using assms
proof (induction rs arbitrary: F k)
  case Nil
  then show ?case by simp
next
  case (Cons r rs)
  let ?F = "F[k := framed_row r]"
  have k: "k < length F" using Cons.prems(1) by simp
  have z: "F ! k = replicate 200 0" using Cons.prems(2) by force
  have step: "frame_rows F (enumerate k (r # rs)) = frame_rows ?F (enumerate (Suc k) rs)"
    using assign_long [OF k z, of r] assign_short [OF k z, of r]
    by (cases "length r \<ge> 200") (simp_all add: Let_def)
  have len: "length ?F = Suc k + length rs" using Cons.prems(1) by simp
  have zeros: "\<forall>j < length rs. ?F ! (Suc k + j) = replicate 200 0"
  proof (intro allI impI)
    fix j assume "j < length rs"
    then have "Suc j < length (r # rs)" by simp
    with Cons.prems(2) have "F ! (k + Suc j) = replicate 200 0" by blast
    then show "?F ! (Suc k + j) = replicate 200 0" by simp
  qed
  have "take (Suc k) ?F = take k F @ [framed_row r]"
    using k by (simp add: take_Suc_conv_app_nth)
  with Cons.IH [OF len zeros] step show ?case by simp
qed

lemma features_of_rows: "features_of reviews_ints = Inr (map framed_row reviews_ints)"
  using frame_rows_enumerate [of "np_zeros (length reviews_ints) seq_len" 0 reviews_ints]
  by (simp add: features_of_def np_zeros_def seq_len_def)

text \<open>
  Claim C2. For every list of encoded reviews the framing loop ends without an
  exception, with one row per review, and every row has length exactly 200: a
  review of at least 200 ids gives its first 200 ids, and a shorter review gives
  \<open>200 - length\<close> zeros followed by its ids in order.
\<close>

theorem framing_rows:
  "\<exists>features. features_of reviews_ints = Inr features
     \<and> length features = length reviews_ints
     \<and> (\<forall>i < length reviews_ints.
          length (features ! i) = 200
          \<and> (length (reviews_ints ! i) \<ge> 200 \<longrightarrow> features ! i = take 200 (reviews_ints ! i))
          \<and> (length (reviews_ints ! i) < 200 \<longrightarrow>
               features ! i = replicate (200 - length (reviews_ints ! i)) 0 @ reviews_ints ! i))"
  by (simp add: features_of_rows framed_row_def)

theorem framing_rows_witness:
  "\<exists>features. features_of [[7, 8, 9], replicate 250 5] = Inr features
     \<and> length features = 2
     \<and> features ! 0 = replicate 197 0 @ [7, 8, 9]
     \<and> features ! 1 = replicate 200 5"
  using framing_rows [of "[[7, 8, 9], replicate 250 5]"]
  by (auto simp: less_Suc_eq numeral_2_eq_2)

section \<open>Properties of the vocabulary\<close>

lemma keys_counter_add: "fst ` set (counter_add w kcs) = insert w (fst ` set kcs)"
  by (induction w kcs rule: counter_add.induct) auto

lemma distinct_counter_add:
  "distinct (map fst kcs) \<Longrightarrow> distinct (map fst (counter_add w kcs))"
proof (induction w kcs rule: counter_add.induct)
  case (1 w)
  show ?case by simp
next
  case (2 w k c kcs)
  show ?case
  proof (cases "k = w")
    case True
    with "2.prems" show ?thesis by simp
  next
    case False
    with 2 have "distinct (map fst (counter_add w kcs))" by simp
    with False "2.prems" show ?thesis by (simp add: keys_counter_add)
  qed
qed

lemma counts_get_counter_add:
  "counts_get (counter_add w kcs) v = counts_get kcs v + (if v = w then 1 else 0)"
  by (induction w kcs rule: counter_add.induct) (auto simp: counts_get_def)

lemma fold_counter_add:
  "fst ` set (fold counter_add ws acc) = fst ` set acc \<union> set ws
   \<and> (distinct (map fst acc) \<longrightarrow> distinct (map fst (fold counter_add ws acc)))
   \<and> counts_get (fold counter_add ws acc) v = counts_get acc v + count_list ws v"
proof (induction ws arbitrary: acc)
  case Nil
  show ?case by simp
next
  case (Cons w ws)
  show ?case
    using Cons [of "counter_add w acc"]
    by (auto simp: keys_counter_add distinct_counter_add counts_get_counter_add)
qed

lemma Counter_keys: "set (map fst (Counter ws)) = set ws" "distinct (map fst (Counter ws))"
  using fold_counter_add [of ws "[]"] by (simp_all add: Counter_def)

lemma Counter_get: "counts_get (Counter ws) v = count_list ws v"
  using fold_counter_add [of ws "[]" v] by (simp add: Counter_def counts_get_def)

lemma vocab_of_props:
  "set (vocab_of ws) = set ws" "distinct (vocab_of ws)"
  "length (vocab_of ws) = card (set ws)"
  "sorted (map (\<lambda>w. - int (count_list ws w)) (vocab_of ws))"
proof -
  show s: "set (vocab_of ws) = set ws"
    using Counter_keys(1) [of ws] by (simp add: vocab_of_def Let_def)
  show d: "distinct (vocab_of ws)"
    using Counter_keys(2) [of ws] by (simp add: vocab_of_def Let_def)
  show "length (vocab_of ws) = card (set ws)"
    using distinct_card [OF d] s by simp
  have "sorted (map (\<lambda>w. - int (counts_get (Counter ws) w)) (vocab_of ws))"
    unfolding vocab_of_def Let_def by (rule sorted_sort_key)
  then show "sorted (map (\<lambda>w. - int (count_list ws w)) (vocab_of ws))"
    by (simp only: Counter_get)
qed

lemma fold_enumerate_update:
  assumes "distinct vocab"
  shows "(\<forall>i < length vocab.
            fold (\<lambda>(ii, word) m. m(word \<mapsto> int ii + 1)) (enumerate k vocab) m0 (vocab ! i)
              = Some (int (k + i) + 1))
       \<and> (\<forall>w. w \<notin> set vocab \<longrightarrow>
            fold (\<lambda>(ii, word) m. m(word \<mapsto> int ii + 1)) (enumerate k vocab) m0 w = m0 w)"
proof -
  define f :: "nat \<times> 'a \<Rightarrow> ('a \<rightharpoonup> int) \<Rightarrow> ('a \<rightharpoonup> int)"
    where "f = (\<lambda>(ii, word) m. m(word \<mapsto> int ii + 1))"
  have f: "f (ii, word) m = m(word \<mapsto> int ii + 1)" for ii word m
    by (simp add: f_def)
  have "(\<forall>i < length vocab. fold f (enumerate k vocab) m0 (vocab ! i) = Some (int (k + i) + 1))
       \<and> (\<forall>w. w \<notin> set vocab \<longrightarrow> fold f (enumerate k vocab) m0 w = m0 w)"
    using assms
  proof (induction vocab arbitrary: k m0)
    case Nil
    show ?case by simp
  next
    case (Cons v vs)
    let ?m = "m0(v \<mapsto> int k + 1)"
    from Cons.prems have d: "distinct vs" and v: "v \<notin> set vs" by simp_all
    have unf: "fold f (enumerate k (v # vs)) m0 = fold f (enumerate (Suc k) vs) ?m"
      by (simp add: f)
    from Cons.IH [OF d, of "Suc k" ?m]
    have IH1: "\<And>i. i < length vs \<Longrightarrow>
                fold f (enumerate (Suc k) vs) ?m (vs ! i) = Some (int (Suc k + i) + 1)"
      and IH2: "\<And>w. w \<notin> set vs \<Longrightarrow> fold f (enumerate (Suc k) vs) ?m w = ?m w"
      by blast+
    show ?case
    proof (intro conjI allI impI)
      fix i assume i: "i < length (v # vs)"
      show "fold f (enumerate k (v # vs)) m0 ((v # vs) ! i) = Some (int (k + i) + 1)"
      proof (cases i)
        case 0
        then show ?thesis using IH2 [OF v] by (simp add: unf f)
      next
        case (Suc j)
        with i have "j < length vs" by simp
        from IH1 [OF this] Suc show ?thesis by (simp add: unf f)
      qed
    next
      fix w assume "w \<notin> set (v # vs)"
      then have "w \<notin> set vs" "w \<noteq> v" by simp_all
      with IH2 [of w] show "fold f (enumerate k (v # vs)) m0 w = m0 w" by (simp add: unf f)
    qed
  qed
  then show ?thesis by (simp only: f_def)
qed

lemma vocab_to_int_of_nth:
  assumes "distinct vocab"
  shows "i < length vocab \<Longrightarrow> vocab_to_int_of vocab (vocab ! i) = Some (int i + 1)"
    and "w \<notin> set vocab \<Longrightarrow> vocab_to_int_of vocab w = None"
  using fold_enumerate_update [OF assms, of 0 Map.empty]
  by (simp_all add: vocab_to_int_of_def)

lemma vocab_to_int_nth:
  "i < card (set ws) \<Longrightarrow> vocab_to_int ws (vocab_of ws ! i) = Some (int i + 1)"
  "w \<notin> set ws \<Longrightarrow> vocab_to_int ws w = None"
  using vocab_to_int_of_nth [OF vocab_of_props(2), of _ ws] vocab_of_props(1,3) [of ws]
  by (simp_all add: vocab_to_int_def)

lemma vocab_to_int_index:
  assumes "w \<in> set ws"
  shows "\<exists>i < card (set ws). vocab_of ws ! i = w \<and> vocab_to_int ws w = Some (int i + 1)"
proof -
  from assms have "w \<in> set (vocab_of ws)" by (simp add: vocab_of_props(1))
  then obtain i where "i < length (vocab_of ws)" "vocab_of ws ! i = w"
    by (auto simp: in_set_conv_nth)
  then show ?thesis
    using vocab_to_int_nth(1) [of i ws] by (auto simp: vocab_of_props(3))
qed

text \<open>
  Claim C5. For every token list the vocabulary mapping is defined exactly on the
  tokens that occur, gives different tokens different ids, and its ids are exactly
  the integers \<open>1, \<dots>, V\<close> with \<open>V\<close> the number of distinct tokens: a bijection
  between the distinct tokens and \<open>{1..V}\<close>. The id 0 is never assigned.
\<close>

theorem vocabulary_bijection:
  "dom (vocab_to_int ws) = set ws
   \<and> inj_on (vocab_to_int ws) (set ws)
   \<and> ran (vocab_to_int ws) = {1 .. int (card (set ws))}
   \<and> bij_betw (\<lambda>w. the (vocab_to_int ws w)) (set ws) {1 .. int (card (set ws))}
   \<and> 0 \<notin> ran (vocab_to_int ws)"
proof -
  let ?vm = "vocab_to_int ws" and ?V = "card (set ws)" and ?vocab = "vocab_of ws"
  have dom: "dom ?vm = set ws"
  proof
    show "dom ?vm \<subseteq> set ws"
    proof
      fix w assume "w \<in> dom ?vm"
      then have some: "?vm w \<noteq> None" by auto
      show "w \<in> set ws"
      proof (rule ccontr)
        assume "w \<notin> set ws"
        from vocab_to_int_nth(2) [OF this] some show False by simp
      qed
    qed
    show "set ws \<subseteq> dom ?vm" using vocab_to_int_index [of _ ws] by auto
  qed
  have inj: "inj_on ?vm (set ws)"
  proof (rule inj_onI)
    fix u v assume "u \<in> set ws" "v \<in> set ws" and eq: "?vm u = ?vm v"
    from vocab_to_int_index [OF \<open>u \<in> set ws\<close>] obtain i
      where i: "?vocab ! i = u" "?vm u = Some (int i + 1)" by blast
    from vocab_to_int_index [OF \<open>v \<in> set ws\<close>] obtain j
      where j: "?vocab ! j = v" "?vm v = Some (int j + 1)" by blast
    from eq i(2) j(2) have "i = j" by simp
    with i(1) j(1) show "u = v" by simp
  qed
  have ran: "ran ?vm = {1 .. int ?V}"
  proof
    show "ran ?vm \<subseteq> {1 .. int ?V}"
    proof
      fix n assume "n \<in> ran ?vm"
      then obtain w where w: "?vm w = Some n" by (auto simp: ran_def)
      then have "w \<in> set ws" using dom by blast
      from vocab_to_int_index [OF this] w show "n \<in> {1 .. int ?V}" by auto
    qed
    show "{1 .. int ?V} \<subseteq> ran ?vm"
    proof
      fix n assume n: "n \<in> {1 .. int ?V}"
      then have "nat (n - 1) < ?V" by auto
      from vocab_to_int_nth(1) [OF this] n have "?vm (?vocab ! nat (n - 1)) = Some n" by simp
      then show "n \<in> ran ?vm" by (rule ranI)
    qed
  qed
  have bij: "bij_betw (\<lambda>w. the (?vm w)) (set ws) {1 .. int ?V}"
    unfolding bij_betw_def
  proof
    show "inj_on (\<lambda>w. the (?vm w)) (set ws)"
    proof (rule inj_onI)
      fix u v assume u: "u \<in> set ws" and v: "v \<in> set ws" and eq: "the (?vm u) = the (?vm v)"
      from u v dom have "?vm u \<noteq> None" "?vm v \<noteq> None" by blast+
      with eq have "?vm u = ?vm v" by (auto simp: option.expand)
      with inj u v show "u = v" by (auto dest: inj_onD)
    qed
    have "(\<lambda>w. the (?vm w)) ` set ws = ran ?vm"
      using dom by (force simp: ran_def image_def dom_def)
    with ran show "(\<lambda>w. the (?vm w)) ` set ws = {1 .. int ?V}" by simp
  qed
  from ran have zero: "0 \<notin> ran ?vm" by simp
  from dom inj ran bij zero show ?thesis by blast
qed

theorem vocabulary_bijection_witness:
  "map (vocab_to_int [''a'', ''b'', ''b'', ''c'', ''a'', ''b'']) [''b'', ''a'', ''c'', ''d'']
     = [Some 1, Some 2, Some 3, None]
   \<and> ran (vocab_to_int [''a'', ''b'', ''b'', ''c'', ''a'', ''b'']) = {1 .. 3}
   \<and> 0 \<notin> ran (vocab_to_int [''a'', ''b'', ''b'', ''c'', ''a'', ''b''])"
proof -
  have e: "map (vocab_to_int [''a'', ''b'', ''b'', ''c'', ''a'', ''b'']) [''b'', ''a'', ''c'', ''d'']
     = [Some 1, Some 2, Some 3, None]"
    by code_simp
  have c: "card (set [''a'', ''b'', ''b'', ''c'', ''a'', ''b'']) = 3"
    by (simp only: card_set) simp
  from vocabulary_bijection [of "[''a'', ''b'', ''b'', ''c'', ''a'', ''b'']"] e
  show ?thesis by (simp only: c) simp
qed

text \<open>
  Claim C6. Of two tokens of the token list, the one that occurs strictly more
  often has the strictly smaller id.
\<close>

theorem vocabulary_frequency_order:
  assumes "t1 \<in> set ws" "t2 \<in> set ws" "count_list ws t2 < count_list ws t1"
  shows "\<exists>i1 i2. vocab_to_int ws t1 = Some i1 \<and> vocab_to_int ws t2 = Some i2 \<and> i1 < i2"
proof -
  let ?key = "\<lambda>w. - int (count_list ws w)"
  from vocab_to_int_index [OF assms(1)] obtain a
    where a: "a < card (set ws)" "vocab_of ws ! a = t1" "vocab_to_int ws t1 = Some (int a + 1)"
    by blast
  from vocab_to_int_index [OF assms(2)] obtain b
    where b: "b < card (set ws)" "vocab_of ws ! b = t2" "vocab_to_int ws t2 = Some (int b + 1)"
    by blast
  have "a < b"
  proof (rule ccontr)
    assume "\<not> a < b"
    then have "b \<le> a" by simp
    moreover have "a < length (map ?key (vocab_of ws))" using a(1) by (simp add: vocab_of_props(3))
    ultimately have "map ?key (vocab_of ws) ! b \<le> map ?key (vocab_of ws) ! a"
      using vocab_of_props(4) [of ws] by (simp only: sorted_iff_nth_mono)
    then have "?key t2 \<le> ?key t1"
      using a b by (simp add: vocab_of_props(3))
    with assms(3) show False by simp
  qed
  with a(3) b(3) show ?thesis by simp
qed

theorem vocabulary_frequency_order_witness:
  "count_list [''a'', ''b'', ''b'', ''c'', ''a'', ''b''] ''a''
     < count_list [''a'', ''b'', ''b'', ''c'', ''a'', ''b''] ''b''
   \<and> (\<exists>i1 i2. vocab_to_int [''a'', ''b'', ''b'', ''c'', ''a'', ''b''] ''b'' = Some i1
         \<and> vocab_to_int [''a'', ''b'', ''b'', ''c'', ''a'', ''b''] ''a'' = Some i2 \<and> i1 < i2)"
  using vocabulary_frequency_order [of "''b''" "[''a'', ''b'', ''b'', ''c'', ''a'', ''b'']" "''a''"]
  by simp

section \<open>The filter of empty reviews\<close>

text \<open>
  Claim C1 asks that the filter of empty reviews drops the label at the same index.
  The filter cell rebuilds \<^verbatim>\<open>reviews_ints\<close> only; \<^verbatim>\<open>labels\<close> is not touched. With
  the trailing newline that both files end with, two reviews are left and three
  labels. With an empty review between two others the lengths differ as well, and
  the second surviving review (\<open>bad film\<close>, labelled negative) stands at the index
  of the label of the removed review (positive).
\<close>

theorem filter_leaves_labels:
  "preprocess (''good movie'' @ [newline] @ ''bad film.'' @ [newline])
              (''positive'' @ [newline] @ ''negative'' @ [newline])
     = Inr ([[1, 2], [3, 4]], [1, 0, 0])
   \<and> preprocess (''good movie'' @ [newline] @ [newline] @ ''bad film.'')
                (''positive'' @ [newline] @ ''positive'' @ [newline] @ ''negative'')
     = Inr ([[1, 2], [3, 4]], [1, 1, 0])"
  by code_simp

section \<open>Properties of double-precision arithmetic\<close>

lemma bitlen_powi:
  assumes "0 < a"
  shows "(2::rat) powi (bitlen a - 1) \<le> of_int a" "of_int a < (2::rat) powi bitlen a"
proof -
  from assms have ge: "1 \<le> bitlen a" by (auto simp: bitlen_alt_def)
  from bitlen_bounds [OF assms]
  have lo: "2 ^ nat (bitlen a - 1) \<le> a" and hi: "a < 2 ^ nat (bitlen a)" by simp_all
  from lo have "(of_int (2 ^ nat (bitlen a - 1)) :: rat) \<le> of_int a" by (simp only: of_int_le_iff)
  then show "(2::rat) powi (bitlen a - 1) \<le> of_int a"
    using ge by (simp add: power_int_nonneg_exp)
  from hi have "(of_int a :: rat) < of_int (2 ^ nat (bitlen a))" by (simp only: of_int_less_iff)
  then show "of_int a < (2::rat) powi bitlen a"
    using ge by (simp add: power_int_nonneg_exp)
qed

lemma binade_bounds:
  assumes "0 < q"
  shows "2 powi binade q \<le> q" "q < 2 powi (binade q + 1)"
proof -
  obtain a b where ab: "quotient_of q = (a, b)" by (cases "quotient_of q")
  have b: "0 < b" by (rule quotient_of_denom_pos [OF ab])
  have q: "q = of_int a / of_int b" by (rule quotient_of_div [OF ab])
  have a: "0 < a" using assms b q by (simp add: zero_less_divide_iff)
  define k where "k = bitlen a - bitlen b"
  have bq: "(of_int b :: rat) > 0" using b by simp
  have up: "q < 2 powi (k + 1)"
  proof -
    have "of_int a < (2::rat) powi bitlen a" by (rule bitlen_powi(2) [OF a])
    also have "\<dots> = 2 powi (k + 1) * 2 powi (bitlen b - 1)"
      by (simp add: k_def power_int_add [symmetric])
    also have "\<dots> \<le> 2 powi (k + 1) * of_int b"
      using bitlen_powi(1) [OF b] by (intro mult_left_mono) simp_all
    finally show ?thesis using bq by (simp add: q pos_divide_less_eq)
  qed
  have low: "2 powi (k - 1) \<le> q"
  proof -
    have "2 powi (k - 1) * of_int b \<le> 2 powi (k - 1) * (2::rat) powi bitlen b"
      using bitlen_powi(2) [OF b] by (intro mult_left_mono) simp_all
    also have "\<dots> = 2 powi (bitlen a - 1)"
      by (simp add: k_def power_int_add [symmetric])
    also have "\<dots> \<le> of_int a" by (rule bitlen_powi(1) [OF a])
    finally show ?thesis using bq by (simp add: q pos_le_divide_eq)
  qed
  have e: "binade q = (if 2 powi k \<le> q then k else k - 1)"
    by (simp add: binade_def ab k_def Let_def)
  show "2 powi binade q \<le> q" using low by (simp add: e)
  show "q < 2 powi (binade q + 1)" using up by (auto simp: e not_le)
qed

lemma round_half_even_ge: "of_int i \<le> q \<Longrightarrow> i \<le> round_half_even q"
proof -
  assume "of_int i \<le> q"
  then have "i \<le> \<lfloor>q\<rfloor>" by (simp add: le_floor_iff)
  then show ?thesis by (auto simp: round_half_even_def Let_def)
qed

lemma round_half_even_le: "q \<le> of_int i \<Longrightarrow> round_half_even q \<le> i"
proof -
  assume le: "q \<le> of_int i"
  show ?thesis
  proof (cases "q = of_int i")
    case True
    then show ?thesis by (simp add: round_half_even_def)
  next
    case False
    with le have "q < of_int i" by simp
    then have "\<lfloor>q\<rfloor> < i" by (simp add: floor_less_iff)
    then have "\<lfloor>q\<rfloor> + 1 \<le> i" by simp
    then show ?thesis by (auto simp: round_half_even_def Let_def)
  qed
qed

lemma round_double_pos:
  assumes "0 < q"
  shows "round_double q = of_int (round_half_even (q / 2 powi (binade q - 52))) * 2 powi (binade q - 52)"
  using assms by (simp add: round_double_def Let_def)

lemma round_double_ge:
  assumes "0 < q" "of_int i * 2 powi (binade q - 52) \<le> q"
  shows "of_int i * 2 powi (binade q - 52) \<le> round_double q"
proof -
  let ?u = "(2::rat) powi (binade q - 52)"
  have u: "0 < ?u" by simp
  from assms(2) u have "of_int i \<le> q / ?u" by (simp add: pos_le_divide_eq)
  then have "i \<le> round_half_even (q / ?u)" by (rule round_half_even_ge)
  then have "(of_int i :: rat) \<le> of_int (round_half_even (q / ?u))" by simp
  then show ?thesis
    using u by (simp only: round_double_pos [OF assms(1)] mult_le_cancel_right_pos)
qed

lemma round_double_le:
  assumes "0 < q" "q \<le> of_int i * 2 powi (binade q - 52)"
  shows "round_double q \<le> of_int i * 2 powi (binade q - 52)"
proof -
  let ?u = "(2::rat) powi (binade q - 52)"
  have u: "0 < ?u" by simp
  from assms(2) u have "q / ?u \<le> of_int i" by (simp add: pos_divide_le_eq)
  then have "round_half_even (q / ?u) \<le> i" by (rule round_half_even_le)
  then have "(of_int (round_half_even (q / ?u)) :: rat) \<le> of_int i" by simp
  then show ?thesis
    using u by (simp only: round_double_pos [OF assms(1)] mult_le_cancel_right_pos)
qed


lemma round_double_exact:
  assumes "0 < q" "q = of_int i * 2 powi (binade q - 52)"
  shows "round_double q = q"
proof -
  have "of_int i * 2 powi (binade q - 52) \<le> round_double q"
    using assms by (intro round_double_ge) simp_all
  moreover have "round_double q \<le> of_int i * 2 powi (binade q - 52)"
    using assms by (intro round_double_le) simp_all
  ultimately show ?thesis using assms(2) by simp
qed

lemma binade_less:
  assumes "0 < q" "q < 2 powi k"
  shows "binade q < k"
proof (rule ccontr)
  assume "\<not> binade q < k"
  then have "k \<le> binade q" by simp
  then have "(2::rat) powi k \<le> 2 powi binade q" by (intro power_int_increasing) simp_all
  also have "\<dots> \<le> q" by (rule binade_bounds(1) [OF assms(1)])
  finally show False using assms(2) by simp
qed

lemma scaled_int:
  assumes "e \<le> m"
  shows "(of_int K :: rat) * 2 powi (m - 52) = of_int (K * 2 ^ nat (m - e)) * 2 powi (e - 52)"
proof -
  have "(2::rat) powi (m - 52) = 2 powi (m - e) * 2 powi (e - 52)"
    by (simp add: power_int_add [symmetric])
  also have "(2::rat) powi (m - e) = 2 ^ nat (m - e)"
    using assms by (simp add: power_int_nonneg_exp)
  finally show ?thesis by simp
qed

lemma float_of_nat_exact:
  assumes "n < 2 ^ 53"
  shows "float_of_nat n = of_nat n"
proof (cases "n = 0")
  case True
  then show ?thesis by (simp add: float_of_nat_def round_double_def)
next
  case False
  let ?q = "of_nat n :: rat"
  have pos: "0 < ?q" using False by simp
  have "?q < 2 powi 53"
  proof -
    from assms have "(of_nat n :: rat) < of_nat (2 ^ 53)" by (simp only: of_nat_less_iff)
    then show ?thesis by simp
  qed
  then have "binade ?q < 53" by (rule binade_less [OF pos])
  then have e: "binade ?q \<le> 52" by simp
  have "?q = of_int (int n) * 2 powi (52 - 52)" by simp
  also have "\<dots> = of_int (int n * 2 ^ nat (52 - binade ?q)) * 2 powi (binade ?q - 52)"
    by (rule scaled_int [OF e])
  finally show ?thesis
    unfolding float_of_nat_def by (rule round_double_exact [OF pos])
qed

lemma double_0_8: "round_double 0.8 = 3602879701896397 / 4503599627370496"
  by code_simp

lemma double_0_5: "round_double 0.5 = 1 / 2"
  by code_simp

lemma float_mul_half:
  assumes "n < 2 ^ 53"
  shows "float_mul (float_of_nat n) (round_double 0.5) = of_nat n / 2"
proof (cases "n = 0")
  case True
  then show ?thesis by (simp add: float_mul_def float_of_nat_exact round_double_def)
next
  case False
  let ?q = "of_nat n / 2 :: rat"
  have pos: "0 < ?q" using False by simp
  have "?q < 2 powi 52"
  proof -
    from assms have "(of_nat n :: rat) < of_nat (2 ^ 53)" by (simp only: of_nat_less_iff)
    then show ?thesis by simp
  qed
  then have "binade ?q < 52" by (rule binade_less [OF pos])
  then have e: "binade ?q \<le> 51" by simp
  have "?q = of_int (int n) * 2 powi (51 - 52)" by simp
  also have "\<dots> = of_int (int n * 2 ^ nat (51 - binade ?q)) * 2 powi (binade ?q - 52)"
    by (rule scaled_int [OF e])
  finally have a: "round_double ?q = ?q" by (rule round_double_exact [OF pos])
  have b: "float_mul (float_of_nat n) (round_double 0.5) = round_double (of_nat n * (1 / 2))"
    by (simp only: float_mul_def float_of_nat_exact [OF assms] double_0_5)
  have c: "of_nat n * (1 / 2 :: rat) = ?q" by simp
  show ?thesis by (simp only: b c a)
qed

lemma float_mul_0_8:
  assumes "n < 2 ^ 50"
  shows "\<lfloor>float_mul (float_of_nat n) (round_double 0.8)\<rfloor> = int (4 * n div 5)"
proof (cases "n = 0")
  case True
  then show ?thesis by (simp add: float_mul_def float_of_nat_exact round_double_def)
next
  case False
  define d :: rat where "d = 3602879701896397 / 4503599627370496"
  define K where "K = int (4 * n div 5)"
  define q where "q = of_nat n * d"
  define e where "e = binade q"
  define u :: rat where "u = 2 powi (e - 52)"
  have n53: "n < 2 ^ 53" using assms by (rule less_trans) simp
  have fm: "float_mul (float_of_nat n) (round_double 0.8) = round_double q"
    by (simp only: float_mul_def float_of_nat_exact [OF n53] double_0_8 q_def d_def)
  have npos: "0 < (of_nat n :: rat)" using False by simp
  have pos: "0 < q" using npos by (simp add: q_def d_def)
  have nlt: "(of_nat n :: rat) < 2 ^ 50"
  proof -
    from assms have "(of_nat n :: rat) < of_nat (2 ^ 50)" by (simp only: of_nat_less_iff)
    then show ?thesis by simp
  qed
  have "q \<le> of_nat n" using npos by (simp add: q_def d_def)
  with nlt have "q < 2 powi 50" by simp
  then have "e < 50" unfolding e_def by (rule binade_less [OF pos])
  then have e49: "e \<le> 49" and e52: "e \<le> 52" by simp_all
  have "u \<le> 2 powi (- 3)"
    unfolding u_def using e49 by (intro power_int_increasing) simp_all
  then have u8: "u \<le> 1 / 8" by (simp add: power_int_minus)
  have Kn: "5 * K \<le> 4 * int n" "4 * int n \<le> 5 * K + 4"
    by (simp_all add: K_def)
  have Klo: "of_int K \<le> (4 / 5) * (of_nat n :: rat)"
  proof -
    from Kn(1) have "(of_int (5 * K) :: rat) \<le> of_int (4 * int n)" by (simp only: of_int_le_iff)
    then show ?thesis by simp
  qed
  have Khi: "(4 / 5) * (of_nat n :: rat) \<le> of_int K + 4 / 5"
  proof -
    from Kn(2) have "(of_int (4 * int n) :: rat) \<le> of_int (5 * K + 4)" by (simp only: of_int_le_iff)
    then show ?thesis by simp
  qed
  have split: "q = (4 / 5) * of_nat n + of_nat n / 22517998136852480"
    by (simp add: q_def d_def field_simps)
  have lo: "of_int K \<le> q" using Klo npos by (simp add: split)
  have "of_nat n / 22517998136852480 \<le> (1 / 20 :: rat)" using nlt by simp
  with Khi have hi: "q \<le> of_int K + 17 / 20" by (simp add: split)
  have Ku: "of_int (K * 2 ^ nat (52 - e)) * 2 powi (binade q - 52) = (of_int K :: rat)"
    using scaled_int [OF e52, of K] by (simp add: e_def)
  have K1u: "of_int ((K + 1) * 2 ^ nat (52 - e)) * 2 powi (binade q - 52) = (of_int (K + 1) :: rat)"
    using scaled_int [OF e52, of "K + 1"] by (simp add: e_def)
  have ge: "of_int K \<le> round_double q"
  proof -
    have "of_int (K * 2 ^ nat (52 - e)) * 2 powi (binade q - 52) \<le> q"
      using lo by (simp only: Ku)
    from round_double_ge [OF pos this] show ?thesis by (simp only: Ku)
  qed
  have le: "round_double q \<le> of_int K + 1 - u"
  proof -
    have "of_int ((K + 1) * 2 ^ nat (52 - e) - 1) * 2 powi (binade q - 52)
        = of_int ((K + 1) * 2 ^ nat (52 - e)) * 2 powi (binade q - 52) - 2 powi (binade q - 52)"
      by (simp add: left_diff_distrib)
    also have "\<dots> = of_int K + 1 - u"
      by (simp only: K1u) (simp add: u_def e_def)
    finally have eq: "of_int ((K + 1) * 2 ^ nat (52 - e) - 1) * 2 powi (binade q - 52)
        = of_int K + 1 - u" .
    have "q \<le> of_int K + 1 - u" using hi u8 by simp
    then have "q \<le> of_int ((K + 1) * 2 ^ nat (52 - e) - 1) * 2 powi (binade q - 52)"
      by (simp only: eq)
    from round_double_le [OF pos this] show ?thesis by (simp only: eq)
  qed
  have "0 < u" by (simp add: u_def)
  with le have lt: "round_double q < of_int K + 1" by simp
  from ge lt have "\<lfloor>round_double q\<rfloor> = K" by (simp add: floor_unique)
  then show ?thesis by (simp only: fm K_def)
qed

section \<open>Properties of the dataset split\<close>

lemma split_idx_value:
  assumes "length features < 2 ^ 50"
  shows "split_idx_of features = int (4 * length features div 5)"
proof -
  let ?x = "float_mul (float_of_nat (length features)) (round_double 0.8)"
  have fl: "\<lfloor>?x\<rfloor> = int (4 * length features div 5)" by (rule float_mul_0_8 [OF assms])
  then have "0 \<le> \<lfloor>?x\<rfloor>" by simp
  then have "\<not> ?x < 0" by (simp only: zero_le_floor not_less)
  then show ?thesis by (simp only: split_idx_of_def py_int_def if_False fl)
qed

lemma test_idx_value:
  assumes "length rest < 2 ^ 53"
  shows "test_idx_of rest = int (length rest div 2)"
proof -
  let ?n = "length rest"
  have x: "float_mul (float_of_nat ?n) (round_double 0.5) = of_nat ?n / 2"
    by (rule float_mul_half [OF assms])
  have "\<lfloor>(of_nat ?n :: rat) / of_nat 2\<rfloor> = int (?n div 2)"
    by (rule floor_divide_of_nat_eq)
  then have fl: "\<lfloor>(of_nat ?n :: rat) / 2\<rfloor> = int (?n div 2)" by simp
  have "\<not> (of_nat ?n :: rat) / 2 < 0" by simp
  then show ?thesis by (simp only: test_idx_of_def py_int_def x if_False fl)
qed

lemma clamp_index_le: "clamp_index n i \<le> n"
  by (auto simp: clamp_index_def max_def)

lemma slice_partition: "slice_to xs k @ slice_from xs k = xs"
  by (simp add: slice_to_def slice_from_def)

lemma length_slice_to: "length (slice_to xs k) = clamp_index (length xs) k"
  by (simp add: slice_to_def clamp_index_le)

lemma length_slice_from: "length (slice_from xs k) = length xs - clamp_index (length xs) k"
  by (simp add: slice_from_def)

lemma split_data_concat:
  "train_x (split_data features labels) @ val_x (split_data features labels)
     @ test_x (split_data features labels) = features"
  "train_y (split_data features labels) @ val_y (split_data features labels)
     @ test_y (split_data features labels) = labels"
  by (simp_all add: split_data_def Let_def slice_partition)

lemma split_data_lengths_y:
  assumes "length labels = length features"
  shows "length (train_y (split_data features labels)) = length (train_x (split_data features labels))"
    "length (val_y (split_data features labels)) = length (val_x (split_data features labels))"
    "length (test_y (split_data features labels)) = length (test_x (split_data features labels))"
  using assms by (simp_all add: split_data_def Let_def length_slice_to length_slice_from)

lemma split_data_lengths_x:
  assumes "length features < 2 ^ 50"
  shows "length (train_x (split_data features labels)) = 4 * length features div 5"
    "length (val_x (split_data features labels))
       = (length features - 4 * length features div 5) div 2"
    "test_idx_of (slice_from features (split_idx_of features))
       = int ((length features - 4 * length features div 5) div 2)"
proof -
  let ?n = "length features"
  let ?a = "4 * ?n div 5"
  let ?rest = "slice_from features (split_idx_of features)"
  have a: "?a \<le> ?n" by simp
  have ca: "clamp_index ?n (split_idx_of features) = ?a"
    using a by (simp add: split_idx_value [OF assms] clamp_index_def)
  have lr: "length ?rest = ?n - ?a" by (simp only: length_slice_from ca)
  have "length ?rest < 2 ^ 53" using assms lr by simp
  then have t: "test_idx_of ?rest = int ((?n - ?a) div 2)"
    by (simp only: test_idx_value lr)
  show "test_idx_of ?rest = int ((?n - ?a) div 2)" by (rule t)
  show "length (train_x (split_data features labels)) = ?a"
    by (simp add: split_data_def Let_def length_slice_to ca)
  show "length (val_x (split_data features labels)) = (?n - ?a) div 2"
    by (simp add: split_data_def Let_def length_slice_to t lr clamp_index_def)
qed


lemma nth_of_concat3:
  assumes "A @ B @ C = F"
  shows "\<forall>i < length A. A ! i = F ! i"
    "\<forall>i < length B. B ! i = F ! (length A + i)"
    "\<forall>i < length C. C ! i = F ! (length A + length B + i)"
    "length A + length B + length C = length F"
proof -
  show "\<forall>i < length A. A ! i = F ! i"
    using assms by (auto simp: nth_append)
  show "\<forall>i < length B. B ! i = F ! (length A + i)"
    using assms by (auto simp: nth_append)
  have "F ! (length A + length B + i) = C ! i" for i
  proof -
    have "F ! (length (A @ B) + i) = ((A @ B) @ C) ! (length (A @ B) + i)"
      using assms by simp
    also have "\<dots> = C ! i" by (rule nth_append_length_plus)
    finally show ?thesis by simp
  qed
  then show "\<forall>i < length C. C ! i = F ! (length A + length B + i)" by simp
  show "length A + length B + length C = length F"
    using assms by auto
qed

text \<open>
  Claim C4. The split cuts the matrix and the label vector at the same two places.
  The training, validation and test parts are consecutive index ranges of the input
  in the original order; their concatenation is the input (nothing lost, nothing
  twice), so the three lengths sum to \<open>n\<close>; labels of the same length are cut into
  parts of the same lengths. For every \<open>n\<close> below \<open>2 ^ 50\<close> (no array of rows is
  that long) the double-precision products give the cut indices
  \<open>a = \<lfloor>0.8 n\<rfloor> = 4 n div 5\<close> and \<open>c = \<lfloor>0.5 (n - a)\<rfloor> = (n - a) div 2\<close>: the
  training part has \<open>a\<close> rows, the validation part \<open>c\<close> rows, and the test part all
  the remaining \<open>n - a - c\<close> rows, as many as the validation part or one more.
\<close>

theorem split_partition:
  "(let s = split_data features labels;
        n = length features;
        a = 4 * n div 5;
        c = (n - a) div 2
    in train_x s @ val_x s @ test_x s = features
       \<and> train_y s @ val_y s @ test_y s = labels
       \<and> length (train_x s) + length (val_x s) + length (test_x s) = n
       \<and> (\<forall>i < length (train_x s). train_x s ! i = features ! i)
       \<and> (\<forall>i < length (val_x s). val_x s ! i = features ! (length (train_x s) + i))
       \<and> (\<forall>i < length (test_x s).
            test_x s ! i = features ! (length (train_x s) + length (val_x s) + i))
       \<and> (length labels = n \<longrightarrow>
            length (train_y s) = length (train_x s)
            \<and> length (val_y s) = length (val_x s)
            \<and> length (test_y s) = length (test_x s))
       \<and> (n < 2 ^ 50 \<longrightarrow>
            split_idx_of features = int a
            \<and> test_idx_of (slice_from features (split_idx_of features)) = int c
            \<and> length (train_x s) = a
            \<and> length (val_x s) = c
            \<and> length (test_x s) = n - a - c
            \<and> length (val_x s) \<le> length (test_x s)
            \<and> length (test_x s) \<le> length (val_x s) + 1))"
proof -
  define n where "n = length features"
  define a where "a = 4 * n div 5"
  define c where "c = (n - a) div 2"
  define s where "s = split_data features labels"
  have cx: "train_x s @ val_x s @ test_x s = features"
    and cy: "train_y s @ val_y s @ test_y s = labels"
    by (simp_all only: s_def split_data_concat)
  note nx = nth_of_concat3 [OF cx]
  have sum: "length (train_x s) + length (val_x s) + length (test_x s) = n"
    by (simp only: nx(4) n_def)
  have ly: "length (train_y s) = length (train_x s) \<and> length (val_y s) = length (val_x s)
        \<and> length (test_y s) = length (test_x s)" if "length labels = n"
    using split_data_lengths_y [of labels features] that by (simp only: s_def n_def)
  have small: "split_idx_of features = int a
            \<and> test_idx_of (slice_from features (split_idx_of features)) = int c
            \<and> length (train_x s) = a
            \<and> length (val_x s) = c
            \<and> length (test_x s) = n - a - c
            \<and> length (val_x s) \<le> length (test_x s)
            \<and> length (test_x s) \<le> length (val_x s) + 1" if "n < 2 ^ 50"
  proof -
    from that have lt: "length features < 2 ^ 50" by (simp only: n_def)
    have 1: "split_idx_of features = int a"
      by (simp only: split_idx_value [OF lt] a_def n_def)
    have 2: "test_idx_of (slice_from features (split_idx_of features)) = int c"
      by (simp only: split_data_lengths_x(3) [OF lt] c_def a_def n_def)
    have 3: "length (train_x s) = a"
      by (simp only: split_data_lengths_x(1) [OF lt] s_def a_def n_def)
    have 4: "length (val_x s) = c"
      by (simp only: split_data_lengths_x(2) [OF lt] s_def c_def a_def n_def)
    have 5: "length (test_x s) = n - a - c" using sum by (simp add: 3 4)
    have "a \<le> n" by (simp add: a_def)
    then have "c \<le> n - a - c" "n - a - c \<le> c + 1" by (simp_all add: c_def)
    then have 6: "length (val_x s) \<le> length (test_x s)"
      "length (test_x s) \<le> length (val_x s) + 1" by (simp_all only: 4 5)
    from 1 2 3 4 5 6 show ?thesis by blast
  qed
  from cx cy sum nx(1,2,3) ly small have
    "train_x s @ val_x s @ test_x s = features
       \<and> train_y s @ val_y s @ test_y s = labels
       \<and> length (train_x s) + length (val_x s) + length (test_x s) = n
       \<and> (\<forall>i < length (train_x s). train_x s ! i = features ! i)
       \<and> (\<forall>i < length (val_x s). val_x s ! i = features ! (length (train_x s) + i))
       \<and> (\<forall>i < length (test_x s).
            test_x s ! i = features ! (length (train_x s) + length (val_x s) + i))
       \<and> (length labels = n \<longrightarrow>
            length (train_y s) = length (train_x s)
            \<and> length (val_y s) = length (val_x s)
            \<and> length (test_y s) = length (test_x s))
       \<and> (n < 2 ^ 50 \<longrightarrow>
            split_idx_of features = int a
            \<and> test_idx_of (slice_from features (split_idx_of features)) = int c
            \<and> length (train_x s) = a
            \<and> length (val_x s) = c
            \<and> length (test_x s) = n - a - c
            \<and> length (val_x s) \<le> length (test_x s)
            \<and> length (test_x s) \<le> length (val_x s) + 1)"
    by blast
  then show ?thesis
    unfolding Let_def s_def n_def a_def c_def .
qed

theorem split_partition_witness:
  "split_data [1, 2, 3, 4, 5, 6, 7, 8, 9 :: nat] [1, 0, 1, 0, 1, 0, 1, 0, 1 :: int]
     = \<lparr> train_x = [1, 2, 3, 4, 5, 6, 7], train_y = [1, 0, 1, 0, 1, 0, 1],
         val_x = [8], val_y = [0], test_x = [9], test_y = [1] \<rparr>
   \<and> split_idx_of [1, 2, 3, 4, 5, 6, 7, 8, 9 :: nat] = 7"
proof -
  have e: "split_data [1, 2, 3, 4, 5, 6, 7, 8, 9 :: nat] [1, 0, 1, 0, 1, 0, 1, 0, 1 :: int]
     = \<lparr> train_x = [1, 2, 3, 4, 5, 6, 7], train_y = [1, 0, 1, 0, 1, 0, 1],
         val_x = [8], val_y = [0], test_x = [9], test_y = [1] \<rparr>"
    by code_simp
  from split_partition [of "[1, 2, 3, 4, 5, 6, 7, 8, 9 :: nat]" "[1, 0, 1, 0, 1, 0, 1, 0, 1 :: int]"]
  have "split_idx_of [1, 2, 3, 4, 5, 6, 7, 8, 9 :: nat] = 7"
    by (simp add: Let_def)
  with e show ?thesis by simp
qed

end
